theory Spec2Isabelle
  imports Main "HOL-Library.Word" "HOL-Library.Multiset"
begin

section \<open>The thread pool of threadpool.hpp as a transition system\<close>

text \<open>
  The class \<^verbatim>\<open>ThreadPool\<close> keeps all shared data behind one mutex. Every piece of code
  that runs between taking and releasing that mutex is modelled as one atomic step on the
  pool record below; the code a thread runs with the mutex released (the task body, the
  calls of \<^verbatim>\<open>std::thread::join\<close>) is a step of its own.

  A condition variable is modelled by the predicate it is waited on with:
  \<^verbatim>\<open>cv.wait(lock, pred)\<close> is \<^verbatim>\<open>while (!pred()) cv.wait(lock);\<close>, so a blocked thread
  continues only from a state in which its predicate holds under the mutex. The standard
  allows a waiting thread to wake up at any time, so the model lets it re-test the
  predicate in every state; \<^verbatim>\<open>notify_one\<close> and \<^verbatim>\<open>notify_all\<close> then change nothing in the
  state. The executions of the program are among the executions of the model, which is
  what the safety properties below need.
\<close>

subsection \<open>Data\<close>

text \<open>\<^verbatim>\<open>size_t\<close> on an LP64 platform: unsigned, 64 bits, arithmetic wraps.\<close>

type_synonym size_t = "64 word"

text \<open>
  Where a worker thread is in \<^verbatim>\<open>work()\<close> whenever it does not hold the mutex:
  \<^item> \<open>Top\<close>: about to lock the mutex at the head of the \<^verbatim>\<open>while (true)\<close> loop (line 60),
    which is also where a freshly created thread starts;
  \<^item> \<open>Waiting\<close>: blocked inside \<^verbatim>\<open>m_task_cv.wait\<close> (line 66);
  \<^item> \<open>Running p\<close>: has popped the wrapper that captured \<^verbatim>\<open>task_ptr\<close> \<open>p\<close> and is about to
    call it (lines 76 to 78);
  \<^item> \<open>Exited\<close>: has returned from \<^verbatim>\<open>work()\<close> (line 71);
  \<^item> \<open>Aborted\<close>: an exception left \<^verbatim>\<open>work()\<close>, or \<^verbatim>\<open>front()\<close> was called on an empty
    queue; the process is gone.
\<close>

datatype pc = Top | Waiting | Running nat | Exited | Aborted

record thread =
  at :: pc
  joinable :: bool

text \<open>
  A \<^verbatim>\<open>std::packaged_task<return_type()>\<close> on the heap, together with the shared state its
  future reads. The stored outcome is \<open>Inr v\<close> for a returned value and \<open>Inl e\<close> for an
  exception that the callable threw.
\<close>

record ('e, 'v) packaged_task =
  callable :: "unit \<Rightarrow> 'e + 'v"
  shared_state :: "('e + 'v) option"

text \<open>
  The members of the class. \<open>m_tasks\<close> holds the queued \<^verbatim>\<open>void_wrapper\<close> closures, each
  one represented by the \<^verbatim>\<open>task_ptr\<close> it captured, an index into \<open>heap\<close>. The last two
  fields are history variables that the source does not have: the order in which wrappers
  were popped and the order in which calls of \<^verbatim>\<open>task()\<close> came back.
\<close>

record ('e, 'v) pool =
  m_tasks :: "nat list"
  m_idle_count :: size_t
  m_stop :: bool
  m_threads :: "thread list"
  heap :: "('e, 'v) packaged_task list"
  started :: "nat list"
  finished :: "nat list"

datatype error = system_error

text \<open>What a call does: it blocks, it throws into its caller, or it returns.\<close>

datatype 's ret = Blocks | Throws error 's | Returns 's

subsection \<open>Construction\<close>

text \<open>
  Lines 14 to 19. The constructor holds the mutex while it creates \<open>n_threads\<close> threads, so
  no worker runs before it is done. \<^verbatim>\<open>m_stop\<close> has the default member initialiser
  \<^verbatim>\<open>= false\<close> (line 87); \<^verbatim>\<open>m_idle_count\<close> has none (line 86) and the constructor does not
  assign it, so it starts with whatever its storage holds: the parameter \<open>junk\<close>.
\<close>

definition ThreadPool :: "size_t \<Rightarrow> size_t \<Rightarrow> ('e, 'v) pool" where
  "ThreadPool junk n_threads =
     \<lparr>m_tasks = [], m_idle_count = junk, m_stop = False,
      m_threads = replicate (unat n_threads) \<lparr>at = Top, joinable = True\<rparr>,
      heap = [], started = [], finished = []\<rparr>"

text \<open>
  The default argument is \<^verbatim>\<open>std::thread::hardware_concurrency()\<close>, a value of the platform
  (0 when it cannot be determined) and so a parameter here.
\<close>

definition ThreadPool_default :: "size_t \<Rightarrow> size_t \<Rightarrow> ('e, 'v) pool" where
  "ThreadPool_default junk hardware_concurrency = ThreadPool junk hardware_concurrency"

text \<open>\<^verbatim>\<open>m_threads.size()\<close>\<close>

definition threads_size :: "('e, 'v) pool \<Rightarrow> size_t" where
  "threads_size s = of_nat (length (m_threads s))"

subsection \<open>push and the future\<close>

text \<open>
  Lines 22 to 36. \<^verbatim>\<open>std::bind\<close> stores the arguments next to the callable; the packaged
  task is allocated on the heap and the future that is returned refers to its shared
  state, so the future is the address \<open>task_ptr\<close>. The wrapper goes to the back of the
  queue. There is no test of \<^verbatim>\<open>m_stop\<close> and no failure branch.
\<close>

definition push :: "('a \<Rightarrow> 'e + 'v) \<Rightarrow> 'a \<Rightarrow> ('e, 'v) pool \<Rightarrow> nat \<times> ('e, 'v) pool" where
  "push f args s =
     (let f_bound = (\<lambda>_::unit. f args);
          task_ptr = length (heap s);
          future = task_ptr
      in (future, s\<lparr>heap := heap s @ [\<lparr>callable = f_bound, shared_state = None\<rparr>],
                    m_tasks := m_tasks s @ [task_ptr]\<rparr>))"

text \<open>
  \<^verbatim>\<open>future.get()\<close> as an observation of the shared state: not ready yet, the stored
  exception rethrown, or the stored value.
\<close>

datatype ('e, 'v) got = Pending | Raised 'e | Value 'v

definition get :: "nat \<Rightarrow> ('e, 'v) pool \<Rightarrow> ('e, 'v) got" where
  "get future s =
     (if future < length (heap s) then
        (case shared_state (heap s ! future) of
           None \<Rightarrow> Pending
         | Some (Inl e) \<Rightarrow> Raised e
         | Some (Inr v) \<Rightarrow> Value v)
      else Pending)"

text \<open>
  \<^verbatim>\<open>packaged_task::operator()\<close>: runs the callable and stores what it returned or threw.
  A second invocation throws \<^verbatim>\<open>std::future_error\<close>, here \<open>None\<close>.
\<close>

definition invoke :: "('e, 'v) packaged_task \<Rightarrow> ('e, 'v) packaged_task option" where
  "invoke t =
     (case shared_state t of
        None \<Rightarrow> Some (t\<lparr>shared_state := Some (callable t ())\<rparr>)
      | Some _ \<Rightarrow> None)"

subsection \<open>The worker loop\<close>

definition task_cv_pred :: "('e, 'v) pool \<Rightarrow> bool" where
  "task_cv_pred s = (m_tasks s \<noteq> [] \<or> m_stop s)"

definition set_at :: "nat \<Rightarrow> pc \<Rightarrow> ('e, 'v) pool \<Rightarrow> ('e, 'v) pool" where
  "set_at i p s = s\<lparr>m_threads := (m_threads s)[i := (m_threads s ! i)\<lparr>at := p\<rparr>]\<rparr>"

text \<open>
  Lines 67 to 77, run with the mutex held once the predicate of line 66 is true:
  decrement the idle count, return if stopped with an empty queue, else pop the front.
\<close>

definition dispatch :: "nat \<Rightarrow> ('e, 'v) pool \<Rightarrow> ('e, 'v) pool" where
  "dispatch i s =
     (let s1 = s\<lparr>m_idle_count := m_idle_count s - 1\<rparr>
      in if m_stop s1 \<and> m_tasks s1 = [] then set_at i Exited s1
         else (case m_tasks s1 of
                 [] \<Rightarrow> set_at i Aborted s1
               | task # rest \<Rightarrow>
                   set_at i (Running task) (s1\<lparr>m_tasks := rest, started := started s1 @ [task]\<rparr>)))"

text \<open>
  One step of worker \<open>i\<close>. From \<open>Top\<close>: lines 60 to 66, increment the idle count (the
  notification of line 64 changes no state), test the predicate, and either go on with
  \<open>dispatch\<close> under the same lock or release the mutex and block. From \<open>Waiting\<close>: woken up,
  go on only if the predicate holds. From \<open>Running\<close>: line 78, then back to the loop head.
\<close>

definition work :: "nat \<Rightarrow> ('e, 'v) pool \<Rightarrow> ('e, 'v) pool ret" where
  "work i s =
     (if i < length (m_threads s) then
        (case at (m_threads s ! i) of
           Top \<Rightarrow>
             (let s1 = s\<lparr>m_idle_count := m_idle_count s + 1\<rparr>
              in if task_cv_pred s1 then Returns (dispatch i s1)
                 else Returns (set_at i Waiting s1))
         | Waiting \<Rightarrow> (if task_cv_pred s then Returns (dispatch i s) else Blocks)
         | Running task \<Rightarrow>
             (if task < length (heap s) then
                (case invoke (heap s ! task) of
                   Some t \<Rightarrow>
                     Returns (set_at i Top
                       (s\<lparr>heap := (heap s)[task := t], finished := finished s @ [task]\<rparr>))
                 | None \<Rightarrow> Returns (set_at i Aborted s))
              else Returns (set_at i Aborted s))
         | Exited \<Rightarrow> Blocks
         | Aborted \<Rightarrow> Blocks)
      else Blocks)"

subsection \<open>wait and join\<close>

text \<open>Line 53: the predicate \<^verbatim>\<open>wait()\<close> blocks on. Line 54 only prints.\<close>

definition idle_cv_pred :: "('e, 'v) pool \<Rightarrow> bool" where
  "idle_cv_pred s = (m_tasks s = [] \<and> m_idle_count s = threads_size s)"

definition wait :: "('e, 'v) pool \<Rightarrow> ('e, 'v) pool ret" where
  "wait s = (if idle_cv_pred s then Returns s else Blocks)"

text \<open>
  \<^verbatim>\<open>std::thread::join\<close>: throws \<^verbatim>\<open>std::system_error\<close> when the thread is not joinable,
  blocks until the thread has finished, and leaves it not joinable.
\<close>

definition thread_join :: "thread \<Rightarrow> thread ret" where
  "thread_join t =
     (if \<not> joinable t then Throws system_error t
      else if at t = Exited then Returns (t\<lparr>joinable := False\<rparr>)
      else Blocks)"

text \<open>Lines 39 to 42.\<close>

definition join_stop :: "('e, 'v) pool \<Rightarrow> ('e, 'v) pool" where
  "join_stop s = s\<lparr>m_stop := True\<rparr>"

text \<open>One iteration of the loop of lines 43 to 45, for the thread at index \<open>k\<close>.\<close>

definition join_thread :: "nat \<Rightarrow> ('e, 'v) pool \<Rightarrow> ('e, 'v) pool ret" where
  "join_thread k s =
     (if k < length (m_threads s) then
        (case thread_join (m_threads s ! k) of
           Blocks \<Rightarrow> Blocks
         | Throws e _ \<Rightarrow> Throws e s
         | Returns t \<Rightarrow> Returns (s\<lparr>m_threads := (m_threads s)[k := t]\<rparr>))
      else Blocks)"

text \<open>
  The whole loop from index \<open>k\<close> on, and the whole of \<^verbatim>\<open>join()\<close>, for a caller that no
  worker step interrupts: it blocks if it reaches a thread that is still running.
\<close>

function join_from :: "nat \<Rightarrow> ('e, 'v) pool \<Rightarrow> ('e, 'v) pool ret" where
  "join_from k s =
     (if k < length (m_threads s) then
        (case thread_join (m_threads s ! k) of
           Blocks \<Rightarrow> Blocks
         | Throws e _ \<Rightarrow> Throws e s
         | Returns t \<Rightarrow> join_from (Suc k) (s\<lparr>m_threads := (m_threads s)[k := t]\<rparr>))
      else Returns s)"
  by pat_completeness auto
termination
  by (relation "measure (\<lambda>(k, s). length (m_threads s) - k)") auto

declare join_from.simps [simp del]

definition join :: "('e, 'v) pool \<Rightarrow> ('e, 'v) pool ret" where
  "join s = join_from 0 (join_stop s)"

subsection \<open>Interleavings\<close>

text \<open>
  The steps that threads can take. A call of \<^verbatim>\<open>join()\<close> by a client is \<open>JoinStop\<close> followed
  by \<open>JoinThread 0\<close>, \<open>JoinThread 1\<close> and so on, with steps of other threads in between.
\<close>

datatype ('a, 'e, 'v) event =
    Push "'a \<Rightarrow> 'e + 'v" 'a
  | Work nat
  | Wait
  | JoinStop
  | JoinThread nat

fun step :: "('a, 'e, 'v) event \<Rightarrow> ('e, 'v) pool \<Rightarrow> ('e, 'v) pool ret" where
  "step (Push f args) s = Returns (snd (push f args s))"
| "step (Work i) s = work i s"
| "step Wait s = wait s"
| "step JoinStop s = Returns (join_stop s)"
| "step (JoinThread k) s = join_thread k s"

text \<open>
  A schedule is a list of events; it can be run if no event in it blocks. An exception
  thrown into a client leaves the pool as it is and the schedule goes on.
\<close>

fun run :: "('a, 'e, 'v) event list \<Rightarrow> ('e, 'v) pool \<Rightarrow> ('e, 'v) pool option" where
  "run [] s = Some s"
| "run (e # es) s =
     (case step e s of
        Blocks \<Rightarrow> None
      | Throws _ s' \<Rightarrow> run es s'
      | Returns s' \<Rightarrow> run es s')"

section \<open>Invariants of the reachable states\<close>

text \<open>
  What follows is used in proofs only. \<open>after\<close> is the state a step leaves behind, whether
  it returned or threw; \<open>pcs\<close> lists where the workers are; \<open>running\<close> lists the tasks
  that workers are executing and \<open>waiters\<close> counts the workers blocked on the task
  condition variable.
\<close>

fun after :: "'s ret \<Rightarrow> 's option" where
  "after Blocks = None"
| "after (Throws _ s) = Some s"
| "after (Returns s) = Some s"

definition pcs :: "('e, 'v) pool \<Rightarrow> pc list" where
  "pcs s = map at (m_threads s)"

fun runs :: "pc \<Rightarrow> nat list" where
  "runs (Running p) = [p]"
| "runs _ = []"

definition running :: "pc list \<Rightarrow> nat list" where
  "running ps = concat (map runs ps)"

definition waiters :: "pc list \<Rightarrow> nat" where
  "waiters ps = length (filter (\<lambda>p. p = Waiting) ps)"

text \<open>
  The invariants. Task pointers are handed out in the order of the calls of \<^verbatim>\<open>push\<close>, so
  \<open>[0..<length (heap s)]\<close> is the submission order, and \<open>fifo\<close> says that the wrappers
  popped so far followed by the wrappers still queued are the submitted ones in that
  order. \<open>accounted\<close>: every popped wrapper has either come back or is being run by exactly
  one worker. \<open>settled\<close>: a shared state is set exactly if the task has come back, and then
  to what the callable gives. \<open>counted\<close>: the idle count is its initial value plus the number
  of blocked workers.
\<close>

definition fifo :: "('e, 'v) pool \<Rightarrow> bool" where
  "fifo s = (started s @ m_tasks s = [0..<length (heap s)])"

definition accounted :: "('e, 'v) pool \<Rightarrow> bool" where
  "accounted s = (mset (started s) = mset (finished s) + mset (running (pcs s)))"

definition settled :: "('e, 'v) pool \<Rightarrow> bool" where
  "settled s = (\<forall>p < length (heap s). shared_state (heap s ! p) =
      (if p \<in> set (finished s) then Some (callable (heap s ! p) ()) else None))"

definition no_abort :: "('e, 'v) pool \<Rightarrow> bool" where
  "no_abort s = (Aborted \<notin> set (pcs s))"

definition counted :: "size_t \<Rightarrow> ('e, 'v) pool \<Rightarrow> bool" where
  "counted junk s = (m_idle_count s = junk + of_nat (waiters (pcs s)))"

definition consistent :: "size_t \<Rightarrow> size_t \<Rightarrow> ('e, 'v) pool \<Rightarrow> bool" where
  "consistent junk n s =
     (fifo s \<and> accounted s \<and> settled s \<and> no_abort s \<and> counted junk s \<and>
      length (m_threads s) = unat n)"

text \<open>
  With a single worker the popped wrappers are the ones that came back, followed by the one
  being run, if any. \<open>bound\<close>: the packaged task at an address holds a given callable.
\<close>

definition serial :: "('e, 'v) pool \<Rightarrow> bool" where
  "serial s = (started s = finished s @ running (pcs s))"

definition bound :: "nat \<Rightarrow> (unit \<Rightarrow> 'e + 'v) \<Rightarrow> ('e, 'v) pool \<Rightarrow> bool" where
  "bound p g s = (p < length (heap s) \<and> callable (heap s ! p) = g)"

text \<open>Every worker has returned from its loop.\<close>

definition retired :: "('e, 'v) pool \<Rightarrow> bool" where
  "retired s = (\<forall>q\<in>set (pcs s). q = Exited)"

subsection \<open>Bookkeeping lemmas\<close>

lemma running_update:
  "i < length ps \<Longrightarrow>
   mset (running (ps[i := q])) + mset (runs (ps ! i)) = mset (running ps) + mset (runs q)"
proof (induction ps arbitrary: i)
  case Nil
  then show ?case by simp
next
  case (Cons a ps)
  show ?case
  proof (cases i)
    case 0
    then show ?thesis by (simp add: running_def)
  next
    case (Suc j)
    with Cons.prems have "j < length ps" by simp
    from Cons.IH[OF this] Suc show ?thesis
      by (simp add: running_def)
  qed
qed

lemma waiters_update:
  "i < length ps \<Longrightarrow>
   waiters (ps[i := q]) + (if ps ! i = Waiting then 1 else 0) =
   waiters ps + (if q = Waiting then 1 else 0)"
proof (induction ps arbitrary: i)
  case Nil
  then show ?case by simp
next
  case (Cons a ps)
  show ?case
  proof (cases i)
    case 0
    then show ?thesis by (simp add: waiters_def)
  next
    case (Suc j)
    with Cons.prems have "j < length ps" by simp
    from Cons.IH[OF this] Suc show ?thesis
      by (auto simp: waiters_def split: if_splits)
  qed
qed

lemma running_mem: "i < length ps \<Longrightarrow> ps ! i = Running p \<Longrightarrow> p \<in> set (running ps)"
  by (force simp: running_def dest: nth_mem)

lemma pcs_set_at: "pcs (set_at i p s) = (pcs s)[i := p]"
  by (simp add: pcs_def set_at_def map_update)

lemma set_at_fields:
  "m_tasks (set_at i p s) = m_tasks s"
  "m_idle_count (set_at i p s) = m_idle_count s"
  "m_stop (set_at i p s) = m_stop s"
  "heap (set_at i p s) = heap s"
  "started (set_at i p s) = started s"
  "finished (set_at i p s) = finished s"
  "length (m_threads (set_at i p s)) = length (m_threads s)"
  by (simp_all add: set_at_def)

lemma pcs_fields:
  "pcs (s\<lparr>m_tasks := a\<rparr>) = pcs s"
  "pcs (s\<lparr>m_idle_count := b\<rparr>) = pcs s"
  "pcs (s\<lparr>m_stop := c\<rparr>) = pcs s"
  "pcs (s\<lparr>heap := d\<rparr>) = pcs s"
  "pcs (s\<lparr>started := e\<rparr>) = pcs s"
  "pcs (s\<lparr>finished := f\<rparr>) = pcs s"
  by (simp_all add: pcs_def)

lemma length_pcs: "length (pcs s) = length (m_threads s)"
  by (simp add: pcs_def)

lemma pcs_nth: "i < length (m_threads s) \<Longrightarrow> pcs s ! i = at (m_threads s ! i)"
  by (simp add: pcs_def)

lemma work_cases [consumes 1, case_names sleep leave pop ran abort]:
  assumes "work i s = Returns s'"
  obtains
    "i < length (m_threads s)" "at (m_threads s ! i) = Top" "m_tasks s = []" "\<not> m_stop s"
      "s' = set_at i Waiting (s\<lparr>m_idle_count := m_idle_count s + 1\<rparr>)"
  | "i < length (m_threads s)" "at (m_threads s ! i) = Top \<or> at (m_threads s ! i) = Waiting"
      "m_stop s" "m_tasks s = []"
      "s' = set_at i Exited
         (s\<lparr>m_idle_count := (if at (m_threads s ! i) = Top then m_idle_count s + 1 else m_idle_count s) - 1\<rparr>)"
  | p rest where "i < length (m_threads s)"
      "at (m_threads s ! i) = Top \<or> at (m_threads s ! i) = Waiting" "m_tasks s = p # rest"
      "s' = set_at i (Running p)
         (s\<lparr>m_idle_count := (if at (m_threads s ! i) = Top then m_idle_count s + 1 else m_idle_count s) - 1,
            m_tasks := rest, started := started s @ [p]\<rparr>)"
  | p where "i < length (m_threads s)" "at (m_threads s ! i) = Running p" "p < length (heap s)"
      "shared_state (heap s ! p) = None"
      "s' = set_at i Top
         (s\<lparr>heap := (heap s)[p := (heap s ! p)\<lparr>shared_state := Some (callable (heap s ! p) ())\<rparr>],
            finished := finished s @ [p]\<rparr>)"
  | p where "i < length (m_threads s)" "at (m_threads s ! i) = Running p"
      "\<not> (p < length (heap s) \<and> shared_state (heap s ! p) = None)"
      "s' = set_at i Aborted s"
proof -
  from assms have len: "i < length (m_threads s)"
    by (simp add: work_def split: if_splits)
  show thesis
  proof (cases "at (m_threads s ! i)")
    case Top
    with assms len that(1,2,3) show ?thesis
      by (cases "m_tasks s")
        (auto simp: work_def task_cv_pred_def dispatch_def set_at_def Let_def split: if_splits)
  next
    case Waiting
    with assms len that(2,3) show ?thesis
      by (cases "m_tasks s")
        (auto simp: work_def task_cv_pred_def dispatch_def set_at_def Let_def split: if_splits)
  next
    case (Running p)
    with assms len that(4,5) show ?thesis
      by (cases "shared_state (heap s ! p)")
        (auto simp: work_def invoke_def split: if_splits)
  next
    case Exited
    with assms len show ?thesis by (simp add: work_def)
  next
    case Aborted
    with assms len show ?thesis by (simp add: work_def)
  qed
qed


lemma fifo_bounds:
  assumes "fifo s"
  shows "distinct (started s)" and "p \<in> set (started s) \<Longrightarrow> p < length (heap s)"
    and "p \<in> set (m_tasks s) \<Longrightarrow> p < length (heap s)"
proof -
  from assms have eq: "started s @ m_tasks s = [0..<length (heap s)]"
    by (simp add: fifo_def)
  have "distinct (started s @ m_tasks s)" by (simp add: eq)
  then show "distinct (started s)" by simp
  have "set (started s) \<union> set (m_tasks s) = {0..<length (heap s)}"
    using arg_cong[OF eq, of set] by simp
  then show "p \<in> set (started s) \<Longrightarrow> p < length (heap s)"
    and "p \<in> set (m_tasks s) \<Longrightarrow> p < length (heap s)" by auto
qed

lemma running_fresh:
  assumes "fifo s" "accounted s" "i < length (m_threads s)" "at (m_threads s ! i) = Running p"
  shows "p < length (heap s)" and "p \<notin> set (finished s)"
proof -
  from assms(3,4) have run: "p \<in> set (running (pcs s))"
    by (intro running_mem[of i]) (simp_all add: length_pcs pcs_nth)
  with assms(2) have "p \<in># mset (started s)"
    by (simp add: accounted_def)
  then show "p < length (heap s)"
    using fifo_bounds(2)[OF assms(1)] by simp
  show "p \<notin> set (finished s)"
  proof
    assume "p \<in> set (finished s)"
    then have a: "1 \<le> count (mset (finished s)) p"
      by simp
    from run have b: "1 \<le> count (mset (running (pcs s))) p"
      by simp
    from add_mono[OF a b]
    have "2 \<le> count (mset (finished s) + mset (running (pcs s))) p"
      by (simp only: count_union one_add_one)
    with assms(2) have "2 \<le> count (mset (started s)) p"
      by (simp add: accounted_def)
    moreover have "count (mset (started s)) p \<le> 1"
      using fifo_bounds(1)[OF assms(1)] by (simp add: distinct_count_atmost_1)
    ultimately show False by simp
  qed
qed


lemma waiters_update_word:
  assumes "i < length ps"
  shows "(of_nat (waiters (ps[i := q])) :: size_t) =
         of_nat (waiters ps) + (if q = Waiting then 1 else 0) - (if ps ! i = Waiting then 1 else 0)"
proof -
  have "(of_nat (waiters (ps[i := q]) + (if ps ! i = Waiting then 1 else 0)) :: size_t) =
        of_nat (waiters ps + (if q = Waiting then 1 else 0))"
    by (simp only: waiters_update[OF assms])
  then have "(of_nat (waiters (ps[i := q])) :: size_t) + (if ps ! i = Waiting then 1 else 0) =
        of_nat (waiters ps) + (if q = Waiting then 1 else 0)"
    by (simp split: if_splits)
  then show ?thesis
    by (simp only: eq_diff_eq)
qed

lemma no_abort_update:
  "Aborted \<notin> set ps \<Longrightarrow> q \<noteq> Aborted \<Longrightarrow> Aborted \<notin> set (ps[i := q])"
  using set_update_subset_insert[of ps i q] by auto

lemma consistent_init: "consistent junk n (ThreadPool junk n)"
proof -
  have "running (replicate k Top) = []" for k
    by (induction k) (simp_all add: running_def)
  moreover have "waiters (replicate k Top) = 0" for k
    by (induction k) (simp_all add: waiters_def)
  ultimately show ?thesis
    by (simp add: consistent_def ThreadPool_def fifo_def accounted_def settled_def no_abort_def
        counted_def pcs_def)
qed

lemma push_eq:
  "push f args s =
     (length (heap s),
      s\<lparr>heap := heap s @ [\<lparr>callable = \<lambda>_. f args, shared_state = None\<rparr>],
        m_tasks := m_tasks s @ [length (heap s)]\<rparr>)"
  by (simp add: push_def Let_def)

lemma consistent_push:
  assumes "consistent junk n s"
  shows "consistent junk n (snd (push f args s))"
proof -
  let ?s' = "snd (push f args s)"
  from assms have inv: "fifo s" "accounted s" "settled s" "no_abort s" "counted junk s"
    "length (m_threads s) = unat n"
    by (simp_all add: consistent_def)
  have pcs': "pcs ?s' = pcs s"
    by (simp add: push_eq pcs_def)
  have "fifo ?s'"
    using inv(1) by (simp add: fifo_def push_eq)
  moreover have "accounted ?s'"
    using inv(2) by (simp add: accounted_def pcs') (simp add: push_eq)
  moreover have "settled ?s'"
  proof -
    have "length (heap s) \<notin> set (finished s)"
    proof
      assume "length (heap s) \<in> set (finished s)"
      then have "length (heap s) \<in># mset (started s)"
        using inv(2) by (simp add: accounted_def)
      then show False
        using fifo_bounds(2)[OF inv(1), of "length (heap s)"] by simp
    qed
    with inv(3) show ?thesis
      by (auto simp: settled_def push_eq nth_append less_Suc_eq)
  qed
  moreover have "no_abort ?s'"
    using inv(4) by (simp add: no_abort_def pcs')
  moreover have "counted junk ?s'"
    using inv(5) by (simp add: counted_def pcs') (simp add: push_eq)
  moreover have "length (m_threads ?s') = unat n"
    using inv(6) by (simp add: push_eq)
  ultimately show ?thesis
    by (simp add: consistent_def)
qed


lemma consistent_work:
  assumes "consistent junk n s" and "work i s = Returns s'"
  shows "consistent junk n s'"
proof -
  from assms(1) have inv: "fifo s" "accounted s" "settled s" "no_abort s" "counted junk s"
    "length (m_threads s) = unat n"
    by (simp_all add: consistent_def)
  note flds = set_at_fields pcs_set_at pcs_fields
  from assms(2) show ?thesis
  proof (cases rule: work_cases)
    case sleep
    then have i: "i < length (pcs s)" and at: "pcs s ! i = Top"
      by (simp_all add: length_pcs pcs_nth)
    have "fifo s'"
      using inv(1) by (simp add: fifo_def sleep(5) flds)
    moreover have "accounted s'"
      using inv(2) running_update[OF i, of Waiting] at
      by (simp add: accounted_def sleep(5) flds)
    moreover have "settled s'"
      using inv(3) by (simp add: settled_def sleep(5) flds)
    moreover have "no_abort s'"
      using inv(4) by (simp add: no_abort_def sleep(5) flds no_abort_update)
    moreover have "counted junk s'"
      using inv(5) waiters_update_word[OF i, of Waiting] at
      by (simp add: counted_def sleep(5) flds)
    moreover have "length (m_threads s') = unat n"
      using inv(6) by (simp add: sleep(5) flds)
    ultimately show ?thesis
      by (simp add: consistent_def)
  next
    case leave
    then have i: "i < length (pcs s)" and at: "pcs s ! i = Top \<or> pcs s ! i = Waiting"
      by (simp_all add: length_pcs pcs_nth)
    have at': "at (m_threads s ! i) = pcs s ! i"
      using leave(1) by (simp add: pcs_nth)
    have "fifo s'"
      using inv(1) by (simp add: fifo_def leave(5) flds)
    moreover have "accounted s'"
      using inv(2) running_update[OF i, of Exited] at
      by (auto simp: accounted_def leave(5) flds)
    moreover have "settled s'"
      using inv(3) by (simp add: settled_def leave(5) flds)
    moreover have "no_abort s'"
      using inv(4) by (simp add: no_abort_def leave(5) flds no_abort_update)
    moreover have "counted junk s'"
      using inv(5) waiters_update_word[OF i, of Exited] at
      by (auto simp: counted_def leave(5) flds at')
    moreover have "length (m_threads s') = unat n"
      using inv(6) by (simp add: leave(5) flds)
    ultimately show ?thesis
      by (simp add: consistent_def)
  next
    case (pop p rest)
    then have i: "i < length (pcs s)" and at: "pcs s ! i = Top \<or> pcs s ! i = Waiting"
      by (simp_all add: length_pcs pcs_nth)
    have at': "at (m_threads s ! i) = pcs s ! i"
      using pop(1) by (simp add: pcs_nth)
    have "fifo s'"
      using inv(1) by (simp add: fifo_def pop(3,4) flds)
    moreover have "accounted s'"
      using inv(2) running_update[OF i, of "Running p"] at
      by (auto simp: accounted_def pop(4) flds)
    moreover have "settled s'"
      using inv(3) by (simp add: settled_def pop(4) flds)
    moreover have "no_abort s'"
      using inv(4) by (simp add: no_abort_def pop(4) flds no_abort_update)
    moreover have "counted junk s'"
      using inv(5) waiters_update_word[OF i, of "Running p"] at
      by (auto simp: counted_def pop(4) flds at')
    moreover have "length (m_threads s') = unat n"
      using inv(6) by (simp add: pop(4) flds)
    ultimately show ?thesis
      by (simp add: consistent_def)
  next
    case (ran p)
    then have i: "i < length (pcs s)" and at: "pcs s ! i = Running p"
      by (simp_all add: length_pcs pcs_nth)
    have "fifo s'"
      using inv(1) by (simp add: fifo_def ran(5) flds)
    moreover have "accounted s'"
      using inv(2) running_update[OF i, of Top] at
      by (simp add: accounted_def ran(5) flds)
    moreover have "settled s'"
      using inv(3) ran(3) by (auto simp: settled_def ran(5) flds nth_list_update)
    moreover have "no_abort s'"
      using inv(4) by (simp add: no_abort_def ran(5) flds no_abort_update)
    moreover have "counted junk s'"
      using inv(5) waiters_update_word[OF i, of Top] at
      by (simp add: counted_def ran(5) flds)
    moreover have "length (m_threads s') = unat n"
      using inv(6) by (simp add: ran(5) flds)
    ultimately show ?thesis
      by (simp add: consistent_def)
  next
    case (abort p)
    from running_fresh[OF inv(1,2) abort(1,2)] inv(3) abort(3)
    have False
      by (simp add: settled_def)
    then show ?thesis ..
  qed
qed


lemma join_thread_cases [consumes 1, case_names joined thrown]:
  assumes "after (join_thread k s) = Some s'"
  obtains
    "k < length (m_threads s)" "joinable (m_threads s ! k)" "at (m_threads s ! k) = Exited"
      "s' = s\<lparr>m_threads := (m_threads s)[k := (m_threads s ! k)\<lparr>joinable := False\<rparr>]\<rparr>"
      "join_thread k s = Returns s'"
  | "k < length (m_threads s)" "\<not> joinable (m_threads s ! k)" "s' = s"
      "join_thread k s = Throws system_error s"
  using assms by (auto simp: join_thread_def thread_join_def split: if_splits)

lemma pcs_joined: "pcs (s\<lparr>m_threads := (m_threads s)[k := (m_threads s ! k)\<lparr>joinable := b\<rparr>]\<rparr>) = pcs s"
proof (cases "k < length (m_threads s)")
  case True
  then have "(map at (m_threads s))[k := map at (m_threads s) ! k] = map at (m_threads s)"
    by (simp only: list_update_id)
  with True show ?thesis
    by (simp add: pcs_def map_update)
next
  case False
  then show ?thesis
    by (simp add: pcs_def list_update_beyond)
qed

lemma consistent_join_thread:
  assumes "consistent junk n s" and "after (join_thread k s) = Some s'"
  shows "consistent junk n s'"
  using assms(2)
proof (cases rule: join_thread_cases)
  case joined
  with assms(1) show ?thesis
    by (simp add: consistent_def fifo_def accounted_def settled_def no_abort_def counted_def
        pcs_joined)
next
  case thrown
  with assms(1) show ?thesis by simp
qed

lemma consistent_join_stop: "consistent junk n s \<Longrightarrow> consistent junk n (join_stop s)"
  by (simp add: consistent_def fifo_def accounted_def settled_def no_abort_def counted_def
      join_stop_def pcs_fields)

lemma work_not_Throws: "work i s \<noteq> Throws e s'"
  by (simp add: work_def Let_def invoke_def split: pc.splits option.splits)

lemma consistent_step:
  assumes "consistent junk n s" and "after (step e s) = Some s'"
  shows "consistent junk n s'"
proof (cases e)
  case (Push f args)
  with assms show ?thesis by (auto intro: consistent_push)
next
  case (Work i)
  with assms(2) have "work i s = Returns s'"
    by (cases "work i s") (simp_all add: work_not_Throws)
  with assms(1) show ?thesis by (rule consistent_work)
next
  case Wait
  with assms show ?thesis by (auto simp: wait_def split: if_splits)
next
  case JoinStop
  with assms show ?thesis by (auto intro: consistent_join_stop)
next
  case (JoinThread k)
  with assms show ?thesis by (auto intro: consistent_join_thread)
qed

lemma run_Cons:
  "run (e # es) s = (case after (step e s) of None \<Rightarrow> None | Some s' \<Rightarrow> run es s')"
  by (cases "step e s") simp_all

lemma consistent_run:
  "consistent junk n s \<Longrightarrow> run es s = Some s' \<Longrightarrow> consistent junk n s'"
proof (induction es arbitrary: s)
  case Nil
  then show ?case by simp
next
  case (Cons e es)
  from Cons.prems(2) obtain s1 where s1: "after (step e s) = Some s1" and r: "run es s1 = Some s'"
    unfolding run_Cons by (auto split: option.splits)
  from consistent_step[OF Cons.prems(1) s1] r show ?case
    by (rule Cons.IH)
qed

lemma reachable_consistent: "run es (ThreadPool junk n) = Some s \<Longrightarrow> consistent junk n s"
  using consistent_init by (rule consistent_run)

lemma running_single:
  assumes "length ps = 1" and "i < length ps"
  shows "running (ps[i := q]) = runs q \<and> running ps = runs (ps ! i)"
proof -
  from assms obtain a where "ps = [a]" and "i = 0"
    by (cases ps) auto
  then show ?thesis
    by (simp add: running_def)
qed

lemma serial_work:
  assumes "length (m_threads s) = 1" and "serial s" and "work i s = Returns s'"
    and "consistent junk n s"
  shows "serial s'"
proof -
  from assms(4) have inv: "fifo s" "accounted s" "settled s"
    by (simp_all add: consistent_def)
  note flds = set_at_fields pcs_set_at pcs_fields
  have one: "length (pcs s) = 1"
    using assms(1) by (simp add: length_pcs)
  from assms(3) show ?thesis
  proof (cases rule: work_cases)
    case sleep
    then have i: "i < length (pcs s)" and at: "pcs s ! i = Top"
      by (simp_all add: length_pcs pcs_nth)
    from assms(2) running_single[OF one i, of Waiting] at show ?thesis
      by (simp add: serial_def sleep(5) flds)
  next
    case leave
    then have i: "i < length (pcs s)" and at: "pcs s ! i = Top \<or> pcs s ! i = Waiting"
      by (simp_all add: length_pcs pcs_nth)
    from assms(2) running_single[OF one i, of Exited] at show ?thesis
      by (auto simp: serial_def leave(5) flds)
  next
    case (pop p rest)
    then have i: "i < length (pcs s)" and at: "pcs s ! i = Top \<or> pcs s ! i = Waiting"
      by (simp_all add: length_pcs pcs_nth)
    from assms(2) running_single[OF one i, of "Running p"] at show ?thesis
      by (auto simp: serial_def pop(4) flds)
  next
    case (ran p)
    then have i: "i < length (pcs s)" and at: "pcs s ! i = Running p"
      by (simp_all add: length_pcs pcs_nth)
    from assms(2) running_single[OF one i, of Top] at show ?thesis
      by (simp add: serial_def ran(5) flds)
  next
    case (abort p)
    from running_fresh[OF inv(1,2) abort(1,2)] inv(3) abort(3)
    have False
      by (simp add: settled_def)
    then show ?thesis ..
  qed
qed

lemma serial_step:
  assumes "length (m_threads s) = 1" and "serial s" and "after (step e s) = Some s'"
    and "consistent junk n s"
  shows "serial s' \<and> length (m_threads s') = 1"
proof (cases e)
  case (Push f args)
  with assms show ?thesis
    by (auto simp: serial_def push_eq pcs_def)
next
  case (Work i)
  with assms(3) have w: "work i s = Returns s'"
    by (cases "work i s") (simp_all add: work_not_Throws)
  then have "length (m_threads s') = length (m_threads s)"
    by (cases rule: work_cases) (simp_all add: set_at_fields)
  with serial_work[OF assms(1,2) w assms(4)] assms(1) show ?thesis by simp
next
  case Wait
  with assms show ?thesis by (auto simp: wait_def split: if_splits)
next
  case JoinStop
  with assms show ?thesis by (auto simp: serial_def join_stop_def pcs_fields)
next
  case (JoinThread k)
  with assms(3) have "after (join_thread k s) = Some s'" by simp
  then show ?thesis
    using assms(1,2) by (cases rule: join_thread_cases) (simp_all add: serial_def pcs_joined)
qed

lemma serial_run:
  "length (m_threads s) = 1 \<Longrightarrow> serial s \<Longrightarrow> consistent junk n s \<Longrightarrow> run es s = Some s' \<Longrightarrow>
   serial s'"
proof (induction es arbitrary: s)
  case Nil
  then show ?case by simp
next
  case (Cons e es)
  from Cons.prems(4) obtain s1 where s1: "after (step e s) = Some s1" and r: "run es s1 = Some s'"
    unfolding run_Cons by (auto split: option.splits)
  from serial_step[OF Cons.prems(1,2) s1 Cons.prems(3)] consistent_step[OF Cons.prems(3) s1] r
  show ?case
    by (auto intro: Cons.IH)
qed

lemma serial_init: "serial (ThreadPool junk 1) \<and> length (m_threads (ThreadPool junk 1 :: ('e, 'v) pool)) = 1"
  by (simp add: serial_def ThreadPool_def pcs_def running_def)

lemma upt_prefix: "xs @ ys = [0..<n] \<Longrightarrow> xs = [0..<length xs]"
proof -
  assume eq: "xs @ ys = [0..<n]"
  then have "take (length xs) (xs @ ys) = take (length xs) [0..<n]" by simp
  moreover have "length xs \<le> n"
    using arg_cong[OF eq, of length] by simp
  ultimately show ?thesis
    by simp
qed

lemmas evaluate =
  ThreadPool_def work_def dispatch_def set_at_def task_cv_pred_def push_def invoke_def
  wait_def idle_cv_pred_def threads_size_def join_thread_def thread_join_def join_stop_def
  get_def Let_def

lemma bound_work:
  assumes "bound p g s" and "work i s = Returns s'"
  shows "bound p g s'"
  using assms(2)
proof (cases rule: work_cases)
  case (ran q)
  with assms(1) show ?thesis
    by (cases "p = q") (simp_all add: bound_def set_at_fields)
qed (use assms(1) in \<open>simp_all add: bound_def set_at_fields\<close>)

lemma bound_step:
  assumes "bound p g s" and "after (step e s) = Some s'"
  shows "bound p g s'"
proof (cases e)
  case (Push f args)
  with assms show ?thesis
    by (auto simp: bound_def push_eq nth_append)
next
  case (Work i)
  with assms(2) have "work i s = Returns s'"
    by (cases "work i s") (simp_all add: work_not_Throws)
  with assms(1) show ?thesis by (rule bound_work)
next
  case Wait
  with assms show ?thesis by (auto simp: wait_def split: if_splits)
next
  case JoinStop
  with assms show ?thesis by (auto simp: bound_def join_stop_def)
next
  case (JoinThread k)
  with assms(2) have "after (join_thread k s) = Some s'" by simp
  then show ?thesis
    using assms(1) by (cases rule: join_thread_cases) (simp_all add: bound_def)
qed

lemma bound_run: "bound p g s \<Longrightarrow> run es s = Some s' \<Longrightarrow> bound p g s'"
proof (induction es arbitrary: s)
  case Nil
  then show ?case by simp
next
  case (Cons e es)
  from Cons.prems(2) obtain s1 where s1: "after (step e s) = Some s1" and r: "run es s1 = Some s'"
    unfolding run_Cons by (auto split: option.splits)
  from bound_step[OF Cons.prems(1) s1] r show ?case
    by (rule Cons.IH)
qed

lemma bound_push: "push f args s = (future, s1) \<Longrightarrow> bound future (\<lambda>_. f args) s1"
  by (auto simp: push_eq bound_def)

lemma pushed_consistent:
  assumes "run es0 (ThreadPool junk n) = Some s0" and "push f args s0 = (future, s1)"
    and "run es s1 = Some s"
  shows "consistent junk n s" and "bound future (\<lambda>_. f args) s"
proof -
  from assms(2) have "s1 = snd (push f args s0)" by simp
  with reachable_consistent[OF assms(1)] have "consistent junk n s1"
    by (simp add: consistent_push)
  then show "consistent junk n s"
    using assms(3) by (rule consistent_run)
  from bound_push[OF assms(2)] assms(3) show "bound future (\<lambda>_. f args) s"
    by (rule bound_run)
qed

lemma get_settled:
  assumes "settled s" and "p < length (heap s)"
  shows "get p s = (if p \<in> set (finished s)
                    then (case callable (heap s ! p) () of Inl e \<Rightarrow> Raised e | Inr v \<Rightarrow> Value v)
                    else Pending)"
  using assms by (simp add: settled_def get_def split: sum.splits)

lemma run_task:
  assumes "consistent junk n s" and "i < length (m_threads s)" and "at (m_threads s ! i) = Running p"
  shows "work i s = Returns (set_at i Top
           (s\<lparr>heap := (heap s)[p := (heap s ! p)\<lparr>shared_state := Some (callable (heap s ! p) ())\<rparr>],
              finished := finished s @ [p]\<rparr>))"
    and "p < length (heap s)" and "p \<notin> set (finished s)"
proof -
  from assms(1) have inv: "fifo s" "accounted s" "settled s"
    by (simp_all add: consistent_def)
  from running_fresh[OF inv(1,2) assms(2,3)]
  show fresh: "p < length (heap s)" "p \<notin> set (finished s)" .
  with inv(3) have "shared_state (heap s ! p) = None"
    by (simp add: settled_def)
  with assms(2,3) fresh(1) show "work i s = Returns (set_at i Top
           (s\<lparr>heap := (heap s)[p := (heap s ! p)\<lparr>shared_state := Some (callable (heap s ! p) ())\<rparr>],
              finished := finished s @ [p]\<rparr>))"
    by (simp add: work_def invoke_def)
qed

lemma at_set_at: "i < length (m_threads s) \<Longrightarrow> at (m_threads (set_at i p s) ! i) = p"
  by (simp add: set_at_def)

lemma running_memD: "p \<in> set (running ps) \<Longrightarrow> \<exists>j<length ps. ps ! j = Running p"
proof -
  assume "p \<in> set (running ps)"
  then obtain q where q: "q \<in> set ps" and p: "p \<in> set (runs q)"
    by (auto simp: running_def)
  from p have "q = Running p" by (cases q) simp_all
  with q show ?thesis by (simp add: in_set_conv_nth)
qed

lemma drained:
  assumes "consistent junk n s" and "m_tasks s = []" and "p < length (heap s)"
  shows "get p s \<noteq> Pending \<or> (\<exists>j<length (m_threads s). at (m_threads s ! j) = Running p)"
proof -
  from assms(1) have inv: "fifo s" "accounted s" "settled s"
    by (simp_all add: consistent_def)
  from inv(1) assms(2,3) have "p \<in># mset (started s)"
    by (simp add: fifo_def)
  with inv(2) have "p \<in> set (finished s) \<or> p \<in> set (running (pcs s))"
    by (simp add: accounted_def)
  then show ?thesis
  proof
    assume "p \<in> set (finished s)"
    with get_settled[OF inv(3) assms(3)] show ?thesis
      by (simp split: sum.splits)
  next
    assume "p \<in> set (running (pcs s))"
    from running_memD[OF this] show ?thesis
      by (auto simp: length_pcs pcs_nth)
  qed
qed

lemma join_stop_again: "m_stop s \<Longrightarrow> join_stop s = s"
  by (simp add: join_stop_def)

lemma join_from_unjoinable:
  assumes "k < length (m_threads s)" and "\<not> joinable (m_threads s ! k)"
  shows "join_from k s = Throws system_error s"
  using assms by (subst join_from.simps) (simp add: thread_join_def)

lemma join_from_done: "length (m_threads s) \<le> k \<Longrightarrow> join_from k s = Returns s"
  by (subst join_from.simps) simp

lemma join_from_Returns:
  "join_from k s = Returns s' \<Longrightarrow>
   length (m_threads s') = length (m_threads s) \<and> m_stop s' = m_stop s \<and>
   (\<forall>j<length (m_threads s). k \<le> j \<longrightarrow> \<not> joinable (m_threads s' ! j)) \<and>
   (\<forall>j<k. m_threads s' ! j = m_threads s ! j)"
proof (induction k s rule: join_from.induct)
  case (1 k s)
  show ?case
  proof (cases "k < length (m_threads s)")
    case False
    with "1.prems" have "s' = s"
      by (simp add: join_from_done)
    with False show ?thesis by simp
  next
    case True
    show ?thesis
    proof (cases "thread_join (m_threads s ! k)")
      case Blocks
      with True "1.prems" show ?thesis
        by (subst (asm) join_from.simps) simp
    next
      case (Throws e t)
      with True "1.prems" show ?thesis
        by (subst (asm) join_from.simps) simp
    next
      case (Returns t)
      let ?s1 = "s\<lparr>m_threads := (m_threads s)[k := t]\<rparr>"
      from Returns True "1.prems" have r: "join_from (Suc k) ?s1 = Returns s'"
        by (subst (asm) join_from.simps) simp
      from Returns have t: "\<not> joinable t"
        by (auto simp: thread_join_def split: if_splits)
      from "1.IH"[OF True Returns r]
      have ih: "length (m_threads s') = length (m_threads s)" "m_stop s' = m_stop s"
        "\<forall>j<length (m_threads s). Suc k \<le> j \<longrightarrow> \<not> joinable (m_threads s' ! j)"
        "\<forall>j<Suc k. m_threads s' ! j = (m_threads s)[k := t] ! j"
        by simp_all
      from ih(4) True have "m_threads s' ! k = t" by simp
      with t ih(3) have "\<forall>j<length (m_threads s). k \<le> j \<longrightarrow> \<not> joinable (m_threads s' ! j)"
        by (metis Suc_leI le_neq_implies_less)
      moreover from ih(4) have "\<forall>j<k. m_threads s' ! j = m_threads s ! j"
        by simp
      ultimately show ?thesis
        using ih(1,2) by simp
    qed
  qed
qed

lemma join_Returns:
  assumes "join s0 = Returns s"
  shows "m_stop s \<and> (\<forall>t\<in>set (m_threads s). \<not> joinable t)"
proof -
  from assms have r: "join_from 0 (join_stop s0) = Returns s"
    by (simp add: join_def)
  from join_from_Returns[OF r] have "m_stop s"
    and "\<forall>j<length (m_threads s). \<not> joinable (m_threads s ! j)"
    by (simp_all add: join_stop_def)
  then show ?thesis
    by (auto simp: in_set_conv_nth)
qed

lemma retired_blocks: "retired s \<Longrightarrow> work i s = Blocks"
proof (cases "i < length (m_threads s)")
  case True
  assume "retired s"
  with True have "at (m_threads s ! i) = Exited"
    by (simp add: retired_def pcs_def)
  with True show ?thesis by (simp add: work_def)
next
  case False
  then show ?thesis by (simp add: work_def)
qed

lemma retired_step:
  assumes "retired s" and "p < length (heap s)" and "get p s = Pending"
    and "after (step e s) = Some s'"
  shows "retired s' \<and> p < length (heap s') \<and> get p s' = Pending"
proof (cases e)
  case (Push f args)
  with assms show ?thesis
    by (auto simp: retired_def push_eq pcs_def get_def nth_append)
next
  case (Work i)
  with assms(4) retired_blocks[OF assms(1), of i] show ?thesis by simp
next
  case Wait
  with assms show ?thesis by (auto simp: wait_def split: if_splits)
next
  case JoinStop
  with assms show ?thesis by (auto simp: retired_def join_stop_def pcs_def get_def)
next
  case (JoinThread k)
  with assms(4) have "after (join_thread k s) = Some s'" by simp
  then show ?thesis
    using assms(1,2,3) by (cases rule: join_thread_cases) (simp_all add: retired_def pcs_joined get_def)
qed

lemma retired_run:
  "retired s \<Longrightarrow> p < length (heap s) \<Longrightarrow> get p s = Pending \<Longrightarrow> run es s = Some s' \<Longrightarrow>
   retired s' \<and> get p s' = Pending"
proof (induction es arbitrary: s)
  case Nil
  then show ?case by simp
next
  case (Cons e es)
  from Cons.prems(4) obtain s1 where s1: "after (step e s) = Some s1" and r: "run es s1 = Some s'"
    unfolding run_Cons by (auto split: option.splits)
  from retired_step[OF Cons.prems(1,2,3) s1]
  have "retired s1" "p < length (heap s1)" "get p s1 = Pending"
    by simp_all
  from this r show ?case
    by (rule Cons.IH)
qed

text \<open>
  What the idle count says when its storage happened to hold 0 at construction: it is the
  number of workers blocked on the task condition variable, it never exceeds the number of
  workers, it equals that number only when no worker is running a task, and \<^verbatim>\<open>wait()\<close>
  returns only when every submitted task has delivered its outcome.
\<close>

lemma waiters_le: "waiters ps \<le> length ps"
  by (simp add: waiters_def)

lemma length_filter_eq_imp: "length (filter P xs) = length xs \<Longrightarrow> filter P xs = xs"
proof (induction xs)
  case Nil
  show ?case by simp
next
  case (Cons a xs)
  show ?case
  proof (cases "P a")
    case True
    with Cons.prems have "length (filter P xs) = length xs" by simp
    then have "filter P xs = xs" by (rule Cons.IH)
    with True show ?thesis by simp
  next
    case False
    with Cons.prems have "length (filter P xs) = Suc (length xs)" by simp
    moreover have "length (filter P xs) \<le> length xs" by (rule length_filter_le)
    ultimately have False by simp
    then show ?thesis ..
  qed
qed

lemma waiters_all: "waiters ps = length ps \<Longrightarrow> q \<in> set ps \<Longrightarrow> q = Waiting"
proof -
  assume "waiters ps = length ps"
  then have "length (filter (\<lambda>p. p = Waiting) ps) = length ps"
    by (simp only: waiters_def)
  then have "filter (\<lambda>p. p = Waiting) ps = ps"
    by (rule length_filter_eq_imp)
  moreover assume "q \<in> set ps"
  ultimately have "q \<in> set (filter (\<lambda>p. p = Waiting) ps)"
    by (simp only:)
  then show "q = Waiting"
    by (simp only: set_filter mem_Collect_eq)
qed

lemma running_all_waiting:
  assumes "\<And>q. q \<in> set ps \<Longrightarrow> q = Waiting"
  shows "running ps = []"
proof -
  have "runs q = []" if "q \<in> set ps" for q
    using assms[OF that] by (simp only: runs.simps)
  then show ?thesis
    by (simp add: running_def)
qed

lemma idle_count_if_zeroed:
  assumes "run es (ThreadPool 0 n) = Some s"
  shows "unat (m_idle_count s) = waiters (pcs s)" and "unat (threads_size s) = length (m_threads s)"
proof -
  from reachable_consistent[OF assms]
  have c: "m_idle_count s = of_nat (waiters (pcs s))" and l: "length (m_threads s) = unat n"
    by (simp_all add: consistent_def counted_def)
  from waiters_le[of "pcs s"] l have "waiters (pcs s) \<le> unat n"
    by (simp add: length_pcs)
  then show "unat (m_idle_count s) = waiters (pcs s)"
    using le_unat_uoi[of "waiters (pcs s)" n] by (simp only: c)
  from l show "unat (threads_size s) = length (m_threads s)"
    by (simp add: threads_size_def)
qed

lemma idle_accounting_if_zeroed:
  assumes "run es (ThreadPool 0 n) = Some s"
  shows "m_idle_count s \<le> threads_size s"
    and "m_idle_count s = threads_size s \<Longrightarrow> \<forall>t\<in>set (m_threads s). at t = Waiting"
proof -
  note u = idle_count_if_zeroed[OF assms]
  from waiters_le[of "pcs s"] show "m_idle_count s \<le> threads_size s"
    by (simp add: word_le_nat_alt u length_pcs)
  assume "m_idle_count s = threads_size s"
  then have "unat (m_idle_count s) = unat (threads_size s)" by simp
  then have "waiters (pcs s) = length (pcs s)"
    by (simp add: u length_pcs)
  from waiters_all[OF this] show "\<forall>t\<in>set (m_threads s). at t = Waiting"
    by (auto simp: pcs_def)
qed

lemma wait_sound_if_zeroed:
  assumes "run es (ThreadPool 0 n) = Some s" and "wait s = Returns s'"
  shows "m_tasks s = []" and "\<forall>t\<in>set (m_threads s). at t = Waiting"
    and "\<forall>p<length (heap s). get p s \<noteq> Pending"
proof -
  from assms(2) have q: "m_tasks s = []" and i: "m_idle_count s = threads_size s"
    by (simp_all add: wait_def idle_cv_pred_def split: if_splits)
  show "m_tasks s = []" by (rule q)
  from idle_accounting_if_zeroed(2)[OF assms(1) i]
  show w: "\<forall>t\<in>set (m_threads s). at t = Waiting" .
  show "\<forall>p<length (heap s). get p s \<noteq> Pending"
  proof (intro allI impI)
    fix p assume p: "p < length (heap s)"
    from drained[OF reachable_consistent[OF assms(1)] q p] w
    show "get p s \<noteq> Pending"
      by (auto dest: nth_mem)
  qed
qed


section \<open>Construction\<close>

text \<open>
  C9, as the code has it. The worker set has exactly as many threads as the argument says,
  zero included, and with the argument omitted exactly as many as
  \<^verbatim>\<open>hardware_concurrency()\<close> reports, zero included: no minimum is applied.
\<close>

theorem ThreadPool_size:
  "length (m_threads (ThreadPool junk n)) = unat n \<and>
   length (m_threads (ThreadPool_default junk hw)) = unat hw"
  by (simp add: ThreadPool_def ThreadPool_default_def)

text \<open>
  C9 as stated fails: a platform whose \<^verbatim>\<open>hardware_concurrency()\<close> is 0 gets a pool
  without workers from the default constructor.
\<close>

theorem ThreadPool_default_no_worker:
  "\<not> 1 \<le> length (m_threads (ThreadPool_default 0 0 :: (unit, unit) pool))"
  by (simp add: ThreadPool_def ThreadPool_default_def)

text \<open>
  C6 on the code: the constructor creates the two workers asked for, both at the head of
  their loop, and the stop flag is false, but the idle count is the 7 that its storage
  held and not 0.
\<close>

theorem ThreadPool_idle_count_uninitialised:
  "m_threads (ThreadPool 7 2 :: (unit, unit) pool) =
     [\<lparr>at = Top, joinable = True\<rparr>, \<lparr>at = Top, joinable = True\<rparr>] \<and>
   m_stop (ThreadPool 7 2 :: (unit, unit) pool) = False \<and>
   m_idle_count (ThreadPool 7 2 :: (unit, unit) pool) = 7 \<and>
   m_idle_count (ThreadPool 7 2 :: (unit, unit) pool) \<noteq> 0"
proof -
  have "replicate 2 x = [x, x]" for x :: thread
    by (simp add: numeral_2_eq_2)
  then show ?thesis
    by (simp add: ThreadPool_def)
qed



section \<open>Queue order\<close>

text \<open>
  C3. \<^verbatim>\<open>push\<close> numbers the tasks in the order of its calls (each call returns the next
  address), so \<open>[0..<length (heap s)]\<close> is the submission order. In every reachable state
  the wrappers popped so far, followed by the wrappers still queued, are the submitted
  tasks in submission order: wrappers leave the queue in exactly the order they entered
  it. With one worker the calls of the tasks also come back in submission order.
\<close>

theorem dequeue_order_is_push_order:
  assumes "run es (ThreadPool junk n) = Some s"
  shows "fst (push f args s) = length (heap s) \<and>
         started s @ m_tasks s = [0..<length (heap s)] \<and>
         started s = [0..<length (started s)] \<and>
         (n = 1 \<longrightarrow> finished s = [0..<length (finished s)])"
proof -
  from reachable_consistent[OF assms] have f: "started s @ m_tasks s = [0..<length (heap s)]"
    by (simp add: consistent_def fifo_def)
  have "finished s = [0..<length (finished s)]" if "n = 1"
  proof -
    from that assms serial_init[of junk] consistent_init[of junk 1] have "serial s"
      by (auto intro: serial_run)
    then have "finished s @ (running (pcs s) @ m_tasks s) = [0..<length (heap s)]"
      using f by (simp add: serial_def)
    then show ?thesis by (rule upt_prefix)
  qed
  with f upt_prefix[OF f] show ?thesis
    by (simp add: push_eq)
qed




text \<open>One worker, two tasks pushed and then run to the end: the second one throws, and they come back in the order 0, 1.\<close>

theorem dequeue_order_witness:
  "\<exists>s. run [Push (\<lambda>x. Inr (x + 1)) 1, Push (\<lambda>x. Inl ()) 2, Work 0, Work 0, Work 0, Work 0]
         (ThreadPool 3 1 :: (unit, nat) pool) = Some s \<and>
       started s @ m_tasks s = [0..<length (heap s)] \<and>
       finished s = [0..<length (finished s)] \<and>
       finished s = [0, 1]"
proof -
  have "\<exists>s. run [Push (\<lambda>x. Inr (x + 1)) 1, Push (\<lambda>x. Inl ()) 2, Work 0, Work 0, Work 0, Work 0]
         (ThreadPool 3 1 :: (unit, nat) pool) = Some s \<and> finished s = [0, 1]"
    by (simp add: evaluate)
  then obtain s where r:
    "run [Push (\<lambda>x. Inr (x + 1)) 1, Push (\<lambda>x. Inl ()) 2, Work 0, Work 0, Work 0, Work 0]
       (ThreadPool 3 1 :: (unit, nat) pool) = Some s" and f: "finished s = [0, 1]"
    by blast
  from dequeue_order_is_push_order[OF r, where f = "\<lambda>x::nat. Inr x" and args = 0] have
    "started s @ m_tasks s = [0..<length (heap s)] \<and> finished s = [0..<length (finished s)]"
    by simp
  with r f show ?thesis
    by blast
qed


section \<open>Results and futures\<close>

text \<open>
  C4. Take any task submitted with \<^verbatim>\<open>push(f, args)\<close> to a pool in any reachable state, and
  any later state in which a worker has popped it and is about to call it. The call
  returns: the future, not ready before, then holds what the task did, the value \<open>v\<close> if
  \<open>f args\<close> returned \<open>v\<close> and the exception \<open>e\<close> if it threw \<open>e\<close>, which \<^verbatim>\<open>get()\<close> rethrows.
  Either way the worker is back at the head of its loop, ready for the next task, and no
  thread of the pool has been brought down.
\<close>

theorem task_outcome_reaches_future:
  assumes "run es0 (ThreadPool junk n) = Some s0" and "push f args s0 = (future, s1)"
    and "run es s1 = Some s"
    and "i < length (m_threads s)" and "at (m_threads s ! i) = Running future"
  shows "\<exists>s'. work i s = Returns s' \<and>
           get future s = Pending \<and>
           get future s' = (case f args of Inl e \<Rightarrow> Raised e | Inr v \<Rightarrow> Value v) \<and>
           at (m_threads s' ! i) = Top \<and>
           Aborted \<notin> set (map at (m_threads s'))"
proof -
  from pushed_consistent[OF assms(1,2,3)]
  have c: "consistent junk n s" and b: "bound future (\<lambda>_. f args) s" .
  let ?s' = "set_at i Top
     (s\<lparr>heap := (heap s)[future := (heap s ! future)\<lparr>shared_state := Some (callable (heap s ! future) ())\<rparr>],
        finished := finished s @ [future]\<rparr>)"
  from run_task[OF c assms(4,5)]
  have w: "work i s = Returns ?s'" and fresh: "future < length (heap s)" "future \<notin> set (finished s)" .
  from c have "settled s" by (simp add: consistent_def)
  from get_settled[OF this fresh(1)] fresh(2) have "get future s = Pending" by simp
  moreover from consistent_work[OF c w] have c': "consistent junk n ?s'" .
  then have "settled ?s'" and "no_abort ?s'" by (simp_all add: consistent_def)
  from get_settled[OF this(1), of future] fresh(1) b
  have "get future ?s' = (case f args of Inl e \<Rightarrow> Raised e | Inr v \<Rightarrow> Value v)"
    by (simp add: set_at_fields bound_def)
  moreover have "at (m_threads ?s' ! i) = Top"
    using assms(4) by (simp add: set_at_def)
  moreover from \<open>no_abort ?s'\<close> have "Aborted \<notin> set (map at (m_threads ?s'))"
    by (simp add: no_abort_def pcs_def)
  ultimately show ?thesis
    using w by blast
qed

text \<open>A task that throws 5: the worker that has popped it stores the exception in the future and is back at the head of its loop.\<close>

theorem task_outcome_witness:
  "\<exists>s s'. run [Push (\<lambda>x. Inl (x + 1)) 4, Work 0] (ThreadPool 3 1 :: (nat, unit) pool) = Some s \<and>
     at (m_threads s ! 0) = Running 0 \<and>
     work 0 s = Returns s' \<and> get 0 s = Pending \<and> get 0 s' = Raised 5 \<and>
     at (m_threads s' ! 0) = Top"
proof -
  let ?P = "ThreadPool 3 1 :: (nat, unit) pool"
  let ?f = "\<lambda>x::nat. (Inl (x + 1) :: nat + unit)"
  let ?es = "[Work 0] :: (nat, nat, unit) event list"
  define s1 where "s1 = snd (push ?f 4 ?P)"
  have r0: "run ([] :: (nat, nat, unit) event list) ?P = Some ?P" by simp
  have p: "push ?f 4 ?P = (0, s1)"
    by (simp add: s1_def push_eq ThreadPool_def)
  have "\<exists>s. run ?es s1 = Some s \<and> 0 < length (m_threads s) \<and> at (m_threads s ! 0) = Running 0"
    by (simp add: s1_def evaluate)
  then obtain s where r: "run ?es s1 = Some s" and i: "0 < length (m_threads s)"
    and a: "at (m_threads s ! 0) = Running 0"
    by blast
  from r have "run [Push ?f 4, Work 0] ?P = Some s"
    by (simp add: s1_def)
  with task_outcome_reaches_future[OF r0 p r i a] a show ?thesis
    by auto
qed


text \<open>
  C10. \<^verbatim>\<open>push(f, args)\<close> itself binds the arguments: the packaged task it allocates holds
  the nullary callable that applies \<open>f\<close> to \<open>args\<close>, and the future it returns, not ready
  at that moment, yields exactly the outcome of \<open>f args\<close> in every later state in which
  the call of the task has come back.
\<close>

theorem push_binds_arguments:
  assumes "run es0 (ThreadPool junk n) = Some s0" and "push f args s0 = (future, s1)"
    and "run es s1 = Some s" and "future \<in> set (finished s)"
  shows "callable (heap s1 ! future) = (\<lambda>_. f args) \<and>
         get future s1 = Pending \<and>
         get future s = (case f args of Inl e \<Rightarrow> Raised e | Inr v \<Rightarrow> Value v)"
proof -
  from pushed_consistent[OF assms(1,2,3)]
  have c: "consistent junk n s" and b: "bound future (\<lambda>_. f args) s" .
  from c have "settled s" by (simp add: consistent_def)
  from get_settled[OF this, of future] b assms(4)
  have "get future s = (case f args of Inl e \<Rightarrow> Raised e | Inr v \<Rightarrow> Value v)"
    by (simp add: bound_def)
  moreover from assms(2) have "callable (heap s1 ! future) = (\<lambda>_. f args)" "get future s1 = Pending"
    by (auto simp: push_eq get_def)
  ultimately show ?thesis by simp
qed

text \<open>A callable of two arguments pushed with 1 and 3: once it has run, the future holds 1 + 2 * 3.\<close>

theorem push_binds_arguments_witness:
  "\<exists>s. run [Push (\<lambda>(a, b). Inr (a + 2 * b)) (1, 3), Work 0, Work 0]
         (ThreadPool 0 1 :: (unit, nat) pool) = Some s \<and>
       finished s = [0] \<and> get 0 s = Value 7"
proof -
  let ?P = "ThreadPool 0 1 :: (unit, nat) pool"
  let ?f = "\<lambda>(a::nat, b::nat). (Inr (a + 2 * b) :: unit + nat)"
  let ?es = "[Work 0, Work 0] :: (nat \<times> nat, unit, nat) event list"
  define s1 where "s1 = snd (push ?f (1, 3) ?P)"
  have r0: "run ([] :: (nat \<times> nat, unit, nat) event list) ?P = Some ?P" by simp
  have p: "push ?f (1, 3) ?P = (0, s1)"
    by (simp add: s1_def push_eq ThreadPool_def)
  have "\<exists>s. run ?es s1 = Some s \<and> finished s = [0]"
    by (simp add: s1_def evaluate)
  then obtain s where r: "run ?es s1 = Some s" and f: "finished s = [0]"
    by blast
  from f have m: "0 \<in> set (finished s)" by simp
  from r have "run [Push ?f (1, 3), Work 0, Work 0] ?P = Some s"
    by (simp add: s1_def)
  with push_binds_arguments[OF r0 p r m] f show ?thesis
    by auto
qed


section \<open>Shutdown\<close>

text \<open>
  C2. Take a worker in any reachable state. If the stop flag is set and the worker is at
  the head of its loop or blocked on the task condition variable, its next step is not
  blocked. Whatever step it takes, the worker leaves its loop exactly if it made that step
  from one of these two places with the stop flag set and the queue empty; so it never
  leaves while a task is queued. When it leaves, every task submitted so far has either
  delivered its outcome or is being run by another worker at that moment. And when the
  queue is not empty, stop flag or not, the worker pops the task at the front and goes on
  to run it.
\<close>

theorem graceful_drain:
  assumes "run es (ThreadPool junk n) = Some s" and "i < length (m_threads s)"
  shows "(m_stop s \<and> (at (m_threads s ! i) = Top \<or> at (m_threads s ! i) = Waiting) \<longrightarrow>
            (\<exists>s'. work i s = Returns s')) \<and>
         (\<forall>s'. work i s = Returns s' \<longrightarrow>
            ((at (m_threads s' ! i) = Exited) =
               ((at (m_threads s ! i) = Top \<or> at (m_threads s ! i) = Waiting) \<and>
                m_stop s \<and> m_tasks s = [])) \<and>
            (at (m_threads s' ! i) = Exited \<longrightarrow>
               (\<forall>p<length (heap s').
                  get p s' \<noteq> Pending \<or>
                  (\<exists>j<length (m_threads s'). at (m_threads s' ! j) = Running p))) \<and>
            ((at (m_threads s ! i) = Top \<or> at (m_threads s ! i) = Waiting) \<and> m_tasks s \<noteq> [] \<longrightarrow>
               at (m_threads s' ! i) = Running (hd (m_tasks s)) \<and> m_tasks s' = tl (m_tasks s)))"
proof (intro conjI allI impI)
  assume "m_stop s \<and> (at (m_threads s ! i) = Top \<or> at (m_threads s ! i) = Waiting)"
  with assms(2) show "\<exists>s'. work i s = Returns s'"
    by (auto simp: work_def task_cv_pred_def)
next
  fix s' assume w: "work i s = Returns s'"
  then show "(at (m_threads s' ! i) = Exited) =
               ((at (m_threads s ! i) = Top \<or> at (m_threads s ! i) = Waiting) \<and>
                m_stop s \<and> m_tasks s = [])"
    by (cases rule: work_cases) (auto simp: at_set_at)
next
  fix s' p assume w: "work i s = Returns s'" and e: "at (m_threads s' ! i) = Exited"
    and p: "p < length (heap s')"
  from consistent_work[OF reachable_consistent[OF assms(1)] w] have c: "consistent junk n s'" .
  from w e have "m_tasks s' = []"
    by (cases rule: work_cases) (auto simp: at_set_at set_at_fields)
  from drained[OF c this p]
  show "get p s' \<noteq> Pending \<or> (\<exists>j<length (m_threads s'). at (m_threads s' ! j) = Running p)" .
next
  fix s' assume w: "work i s = Returns s'"
    and h: "(at (m_threads s ! i) = Top \<or> at (m_threads s ! i) = Waiting) \<and> m_tasks s \<noteq> []"
  from w h show "at (m_threads s' ! i) = Running (hd (m_tasks s))"
    by (cases rule: work_cases) (auto simp: at_set_at)
  from w h show "m_tasks s' = tl (m_tasks s)"
    by (cases rule: work_cases) (auto simp: set_at_fields)
qed

text \<open>A task is pushed and the pool is stopped before the worker has started: the worker still pops and runs the task, and only its next pass through the loop, with the queue empty, ends it.\<close>

theorem graceful_drain_witness:
  "\<exists>s s' t t'.
     run [Push (\<lambda>x. Inr (x + 1)) 1, JoinStop] (ThreadPool 0 1 :: (unit, nat) pool) = Some s \<and>
     m_stop s \<and> m_tasks s = [0] \<and> at (m_threads s ! 0) = Top \<and>
     work 0 s = Returns s' \<and> at (m_threads s' ! 0) = Running 0 \<and> m_tasks s' = [] \<and>
     run [Push (\<lambda>x. Inr (x + 1)) 1, JoinStop, Work 0, Work 0] (ThreadPool 0 1 :: (unit, nat) pool) = Some t \<and>
     m_stop t \<and> m_tasks t = [] \<and> at (m_threads t ! 0) = Top \<and>
     work 0 t = Returns t' \<and> at (m_threads t' ! 0) = Exited \<and> get 0 t' = Value 2"
proof -
  let ?P = "ThreadPool 0 1 :: (unit, nat) pool"
  let ?f = "\<lambda>x::nat. (Inr (x + 1) :: unit + nat)"
  have "\<exists>s. run [Push ?f 1, JoinStop] ?P = Some s \<and> m_stop s \<and> m_tasks s = [0] \<and>
          at (m_threads s ! 0) = Top \<and> 0 < length (m_threads s)"
    by (simp add: evaluate)
  then obtain s where s: "run [Push ?f 1, JoinStop] ?P = Some s" "m_stop s" "m_tasks s = [0]"
    "at (m_threads s ! 0) = Top" "0 < length (m_threads s)"
    by blast
  have "\<exists>t. run [Push ?f 1, JoinStop, Work 0, Work 0] ?P = Some t \<and> m_stop t \<and> m_tasks t = [] \<and>
          at (m_threads t ! 0) = Top \<and> 0 < length (m_threads t) \<and>
          (\<exists>t'. work 0 t = Returns t' \<and> get 0 t' = Value 2)"
    by (simp add: evaluate)
  then obtain t t' where t: "run [Push ?f 1, JoinStop, Work 0, Work 0] ?P = Some t" "m_stop t"
    "m_tasks t = []" "at (m_threads t ! 0) = Top" "0 < length (m_threads t)"
    "work 0 t = Returns t'" "get 0 t' = Value 2"
    by blast
  from graceful_drain[OF s(1) s(5)] s(2,3,4) obtain s' where
    s': "work 0 s = Returns s'" "at (m_threads s' ! 0) = Running 0" "m_tasks s' = []"
    by auto
  from graceful_drain[OF t(1) t(5)] t(2,3,4,6) have "at (m_threads t' ! 0) = Exited"
    by simp
  with s t s' show ?thesis
    by blast
qed


text \<open>
  C7 as stated fails. A pool with one worker is shut down: \<^verbatim>\<open>join()\<close> sets the stop flag,
  the worker leaves its loop, \<^verbatim>\<open>join()\<close> joins it and returns. A second call of
  \<^verbatim>\<open>join()\<close> then does not return normally: it reaches \<^verbatim>\<open>t.join()\<close> on a thread that
  is no longer joinable, and \<^verbatim>\<open>std::system_error\<close> leaves \<^verbatim>\<open>join()\<close>.
\<close>

theorem join_twice_throws:
  "\<exists>s. run [JoinStop, Work 0, JoinThread 0 :: (unit, unit, unit) event]
           (ThreadPool 0 1 :: (unit, unit) pool) = Some s \<and>
        m_stop s \<and> m_threads s = [\<lparr>at = Exited, joinable = False\<rparr>] \<and>
        join s = Throws system_error s"
proof -
  have "\<exists>s. run [JoinStop, Work 0, JoinThread 0 :: (unit, unit, unit) event]
           (ThreadPool 0 1 :: (unit, unit) pool) = Some s \<and>
        m_stop s \<and> m_threads s = [\<lparr>at = Exited, joinable = False\<rparr>]"
    by (simp add: evaluate)
  then obtain s where s: "run [JoinStop, Work 0, JoinThread 0 :: (unit, unit, unit) event]
           (ThreadPool 0 1 :: (unit, unit) pool) = Some s"
    "m_stop s" "m_threads s = [\<lparr>at = Exited, joinable = False\<rparr>]"
    by blast
  from s(3) have "join_from 0 s = Throws system_error s"
    by (intro join_from_unjoinable) simp_all
  with s(2) have "join s = Throws system_error s"
    by (simp only: join_def join_stop_again)
  with s show ?thesis
    by blast
qed

text \<open>
  C7, as the code has it. After a completed call of \<^verbatim>\<open>join()\<close> the stop flag is set and
  no thread of the pool is joinable (lemma \<open>join_Returns\<close> for a call that nothing
  interrupts). A further call of \<^verbatim>\<open>join()\<close> in such a state sets the flag once more and
  returns normally only if the pool has no workers at all; otherwise it throws
  \<^verbatim>\<open>std::system_error\<close> at the first worker. Either way the pool is left as it was:
  no worker is joined a second time.
\<close>

theorem second_join:
  assumes "m_stop s" and "\<forall>t\<in>set (m_threads s). \<not> joinable t"
  shows "join s = (if m_threads s = [] then Returns s else Throws system_error s)"
proof (cases "m_threads s")
  case Nil
  with assms(1) show ?thesis
    by (simp add: join_def join_stop_again join_from_done)
next
  case (Cons t ts)
  with assms(2) have "0 < length (m_threads s)" and "\<not> joinable (m_threads s ! 0)"
    by simp_all
  from join_from_unjoinable[OF this] Cons assms(1) show ?thesis
    by (simp add: join_def join_stop_again)
qed


text \<open>Two workers, shut down and joined: a further call throws.\<close>

theorem second_join_witness:
  "\<exists>s. run [JoinStop, Work 0, Work 1, JoinThread 0, JoinThread 1 :: (unit, unit, unit) event]
           (ThreadPool 0 2 :: (unit, unit) pool) = Some s \<and>
        m_stop s \<and> (\<forall>t\<in>set (m_threads s). \<not> joinable t) \<and> m_threads s \<noteq> [] \<and>
        join s = Throws system_error s"
proof -
  have two: "replicate 2 x = [x, x]" for x :: thread
    by (simp add: numeral_2_eq_2)
  have "\<exists>s. run [JoinStop, Work 0, Work 1, JoinThread 0, JoinThread 1 :: (unit, unit, unit) event]
           (ThreadPool 0 2 :: (unit, unit) pool) = Some s \<and>
        m_stop s \<and> (\<forall>t\<in>set (m_threads s). \<not> joinable t) \<and> m_threads s \<noteq> []"
    by (simp add: evaluate two)
  then obtain s where s: "run [JoinStop, Work 0, Work 1, JoinThread 0, JoinThread 1 :: (unit, unit, unit) event]
           (ThreadPool 0 2 :: (unit, unit) pool) = Some s"
    "m_stop s" "\<forall>t\<in>set (m_threads s). \<not> joinable t" "m_threads s \<noteq> []"
    by blast
  from second_join[OF s(2,3)] s(4) have "join s = Throws system_error s"
    by simp
  with s show ?thesis
    by blast
qed


text \<open>
  C8 as stated fails. A pool with one worker has been shut down completely: the stop flag
  is set, the worker has left its loop and has been joined. A call of \<^verbatim>\<open>push\<close> in that
  state does not fail: it returns a future and the task sits in the queue.
\<close>

theorem push_after_join_accepted:
  "\<exists>s. run [JoinStop, Work 0, JoinThread 0 :: (nat, unit, nat) event]
           (ThreadPool 0 1 :: (unit, nat) pool) = Some s \<and>
        m_stop s \<and> m_threads s = [\<lparr>at = Exited, joinable = False\<rparr>] \<and>
        step (Push (\<lambda>x. Inr x) (5::nat)) s = Returns (snd (push (\<lambda>x. Inr x) (5::nat) s)) \<and>
        fst (push (\<lambda>x. Inr x) (5::nat) s) = 0 \<and>
        m_tasks (snd (push (\<lambda>x. Inr x) (5::nat) s)) = [0]"
  by (simp add: evaluate)

text \<open>
  C8, as the code has it. \<^verbatim>\<open>push\<close> never fails, whatever the stop flag says: it
  allocates the packaged task, appends the wrapper to the queue and returns the future,
  as it does before shutdown. If every worker has already left its loop, the task is never
  run: in every later state the workers are still gone and the future is still not ready.
\<close>

theorem push_after_shutdown:
  "step (Push f args) s =
     Returns (s\<lparr>heap := heap s @ [\<lparr>callable = \<lambda>_. f args, shared_state = None\<rparr>],
                m_tasks := m_tasks s @ [length (heap s)]\<rparr>) \<and>
   fst (push f args s) = length (heap s) \<and>
   (retired s \<and> run es (snd (push f args s)) = Some s' \<longrightarrow>
      retired s' \<and> get (fst (push f args s)) s' = Pending)"
proof (intro conjI impI)
  show "step (Push f args) s =
     Returns (s\<lparr>heap := heap s @ [\<lparr>callable = \<lambda>_. f args, shared_state = None\<rparr>],
                m_tasks := m_tasks s @ [length (heap s)]\<rparr>)"
    and "fst (push f args s) = length (heap s)"
    by (simp_all add: push_eq)
next
  assume h: "retired s \<and> run es (snd (push f args s)) = Some s'"
  let ?s1 = "snd (push f args s)"
  from h have "retired ?s1" "length (heap s) < length (heap ?s1)" "get (length (heap s)) ?s1 = Pending"
    and r: "run es ?s1 = Some s'"
    by (simp_all add: push_eq retired_def pcs_def get_def)
  from retired_run[OF this]
  show "retired s'" and "get (fst (push f args s)) s' = Pending"
    by (simp_all add: push_eq)
qed

text \<open>The pool of the counterexample: the task pushed after shutdown stays queued and its future stays unset.\<close>

theorem push_after_shutdown_witness:
  "\<exists>s s'. run [JoinStop, Work 0, JoinThread 0 :: (nat, unit, nat) event]
           (ThreadPool 0 1 :: (unit, nat) pool) = Some s \<and>
        retired s \<and>
        run [JoinStop, JoinThread 0 :: (nat, unit, nat) event] (snd (push (\<lambda>x. Inr x) (5::nat) s)) = Some s' \<and>
        m_tasks s' = [0] \<and> retired s' \<and> get 0 s' = Pending"
proof -
  let ?f = "\<lambda>x::nat. (Inr x :: unit + nat)"
  have "\<exists>s. run [JoinStop, Work 0, JoinThread 0 :: (nat, unit, nat) event]
           (ThreadPool 0 1 :: (unit, nat) pool) = Some s \<and> retired s \<and> heap s = [] \<and>
        (\<exists>s'. run [JoinStop, JoinThread 0 :: (nat, unit, nat) event] (snd (push ?f 5 s)) = Some s' \<and>
          m_tasks s' = [0])"
    by (simp add: evaluate retired_def pcs_def)
  then obtain s s' where s: "run [JoinStop, Work 0, JoinThread 0 :: (nat, unit, nat) event]
           (ThreadPool 0 1 :: (unit, nat) pool) = Some s" "retired s" "heap s = []"
    "run [JoinStop, JoinThread 0 :: (nat, unit, nat) event] (snd (push ?f 5 s)) = Some s'"
    "m_tasks s' = [0]"
    by blast
  have "retired s \<and> run [JoinStop, JoinThread 0 :: (nat, unit, nat) event] (snd (push ?f 5 s)) = Some s' \<longrightarrow>
          retired s' \<and> get (fst (push ?f 5 s)) s' = Pending"
    using push_after_shutdown[of ?f 5 s "[JoinStop, JoinThread 0]" s'] by blast
  with s(2,4) have "retired s' \<and> get (fst (push ?f 5 s)) s' = Pending"
    by blast
  moreover from s(3) have "fst (push ?f 5 s) = 0"
    by (simp add: push_eq)
  ultimately have "retired s' \<and> get 0 s' = Pending"
    by simp
  with s show ?thesis
    by blast
qed


section \<open>The idle count\<close>

text \<open>
  C1 on the code. \<^verbatim>\<open>wait()\<close> returns only from a state in which the queue is empty and
  \<^verbatim>\<open>m_idle_count\<close> equals the number of workers, and it tests this on every wake-up; but
  \<^verbatim>\<open>m_idle_count\<close> counts the idle workers only if it started at 0 (lemma
  \<open>wait_sound_if_zeroed\<close>), and the constructor does not initialise it. Here a pool with
  one worker is built in storage that held 1. The worker blocks on the empty queue, a task
  is pushed, the worker pops it and is about to run it, so the future is not ready; the
  idle count is then 1, the number of workers, and \<^verbatim>\<open>wait()\<close> returns while the task is
  running.
\<close>

theorem wait_returns_while_task_runs:
  "\<exists>s. run [Work 0, Push (\<lambda>x. Inr x) (5::nat), Work 0] (ThreadPool 1 1 :: (unit, nat) pool) = Some s \<and>
        at (m_threads s ! 0) = Running 0 \<and> get 0 s = Pending \<and>
        m_idle_count s = 1 \<and> threads_size s = 1 \<and> wait s = Returns s"
  by (simp add: evaluate)

text \<open>
  C5 on the code. With \<^verbatim>\<open>m_idle_count\<close> starting at 0 the idle count stays between 0 and
  the number of workers and equals that number only when no worker runs a task (lemma
  \<open>idle_accounting_if_zeroed\<close>). The constructor leaves it uninitialised: a pool with one
  worker built in storage that held 5 has an idle count of 5 when the constructor returns,
  and of 6 once its worker blocks on the empty queue, above the number of workers both
  times.
\<close>

theorem idle_count_out_of_range:
  "m_idle_count (ThreadPool 5 1 :: (unit, unit) pool) = 5 \<and>
   threads_size (ThreadPool 5 1 :: (unit, unit) pool) = 1 \<and>
   \<not> m_idle_count (ThreadPool 5 1 :: (unit, unit) pool) \<le> threads_size (ThreadPool 5 1 :: (unit, unit) pool) \<and>
   (\<exists>s. run [Work 0 :: (unit, unit, unit) event] (ThreadPool 5 1 :: (unit, unit) pool) = Some s \<and>
        m_idle_count s = 6 \<and> threads_size s = 1 \<and> \<not> m_idle_count s \<le> threads_size s)"
proof -
  have "\<not> (5 :: size_t) \<le> 1" and "\<not> (6 :: size_t) \<le> 1"
    by (simp_all add: word_le_nat_alt)
  then show ?thesis
    by (simp add: evaluate)
qed


end
